theory Spec2Isabelle
  imports Complex_Main "HOL-Library.Word"
begin

unbundle bit_operations_syntax

section \<open>Data model\<close>

text \<open>
  The program is \<^verbatim>\<open>src/main.py\<close>. A \<^verbatim>\<open>bytes\<close> or \<^verbatim>\<open>bytearray\<close> value is a list of
  8-bit words; every other Python integer (bit offsets, lengths, CRC values, counters) is an
  unbounded \<open>int\<close>, with the masks of the source written out. An exception is the left
  summand of a result.
\<close>

type_synonym byte = "8 word"

datatype error = IndexError | ValueError | AssertionError | PatchError string

text \<open>
  Python sequence indexing \<^verbatim>\<open>xs[i]\<close> and item assignment \<^verbatim>\<open>xs[i] = v\<close>: a negative
  index counts from the end, and an index outside \<open>[-len, len)\<close> raises \<^verbatim>\<open>IndexError\<close>.
\<close>

definition py_index :: "'a list \<Rightarrow> int \<Rightarrow> error + nat" where
  "py_index xs i =
     (if 0 \<le> i then (if i < int (length xs) then Inr (nat i) else Inl IndexError)
      else (if - int (length xs) \<le> i then Inr (nat (int (length xs) + i)) else Inl IndexError))"

definition py_get :: "'a list \<Rightarrow> int \<Rightarrow> error + 'a" where
  "py_get xs i = (case py_index xs i of Inl e \<Rightarrow> Inl e | Inr k \<Rightarrow> Inr (xs ! k))"

definition py_set :: "'a list \<Rightarrow> int \<Rightarrow> 'a \<Rightarrow> error + 'a list" where
  "py_set xs i v = (case py_index xs i of Inl e \<Rightarrow> Inl e | Inr k \<Rightarrow> Inr (xs[k := v]))"

text \<open>Python slicing \<^verbatim>\<open>xs[lo:hi]\<close> (step 1): bounds are taken from the end when negative, then clamped.\<close>

definition py_bound :: "nat \<Rightarrow> int \<Rightarrow> nat" where
  "py_bound n i = (if i < 0 then nat (max 0 (int n + i)) else min n (nat i))"

definition py_slice :: "'a list \<Rightarrow> int \<Rightarrow> int \<Rightarrow> 'a list" where
  "py_slice xs lo hi = drop (py_bound (length xs) lo) (take (py_bound (length xs) hi) xs)"

section \<open>CRC\<close>

definition CRC16_POLY :: int where
  "CRC16_POLY = 0x8005"

text \<open>The body of the inner loop of \<^verbatim>\<open>crc_init\<close>, and the value it stores at index \<open>n\<close>.\<close>

definition crc_shift :: "int \<Rightarrow> int" where
  "crc_shift c =
     (if c AND 0x8000 \<noteq> 0 then (push_bit 1 c AND 0xFFFF) XOR CRC16_POLY
      else push_bit 1 c AND 0xFFFF)"

definition crc_entry :: "int \<Rightarrow> int" where
  "crc_entry n = (crc_shift ^^ 8) (push_bit 8 n AND 0xFFFF)"

text \<open>
  \<^verbatim>\<open>_crc_table\<close> after \<^verbatim>\<open>crc_init()\<close>, which \<^verbatim>\<open>main\<close> runs before anything else.
\<close>

definition crc_init :: "int list" where
  "crc_init = map (\<lambda>n. crc_entry (int n)) [0..<256]"

fun crc16_loop :: "int list \<Rightarrow> byte list \<Rightarrow> int \<Rightarrow> int" where
  "crc16_loop tbl [] crc = crc"
| "crc16_loop tbl (b # data) crc =
     crc16_loop tbl data
       (((tbl ! nat ((uint b XOR drop_bit 8 crc) AND 0xFF)) XOR (push_bit 8 crc AND 0xFFFF)) AND 0xFFFF)"

definition crc16 :: "byte list \<Rightarrow> int \<Rightarrow> int" where
  "crc16 data crc = crc16_loop crc_init data (crc AND 0xFFFF)"

definition eac3_rewrite_crc2_like_c :: "byte list \<Rightarrow> int \<Rightarrow> error + byte list" where
  "eac3_rewrite_crc2_like_c frame frlen =
     (if frlen < 6 then Inr frame
      else
        let c = crc16 (py_slice frame 2 (frlen - 2)) 0 in
        case py_set frame (frlen - 2) (word_of_int (drop_bit 8 c AND 0xFF)) of
          Inl e \<Rightarrow> Inl e
        | Inr frame1 \<Rightarrow> py_set frame1 (frlen - 1) (word_of_int (c AND 0xFF)))"

section \<open>Bits\<close>

definition getbit :: "byte list \<Rightarrow> int \<Rightarrow> error + int" where
  "getbit buf bitoffset =
     (let idx = bitoffset div 8 in
      if idx \<ge> int (length buf) then Inr 0
      else
        let mask = drop_bit (nat (bitoffset mod 8)) (0x80 :: byte) in
        case py_get buf idx of
          Inl e \<Rightarrow> Inl e
        | Inr b \<Rightarrow> Inr (if b AND mask \<noteq> 0 then 1 else 0))"

definition setbit :: "byte list \<Rightarrow> int \<Rightarrow> int \<Rightarrow> error + byte list" where
  "setbit buf bit' bitoffset =
     (let idx = bitoffset div 8 in
      if idx \<ge> int (length buf) then Inr buf
      else
        let mask = drop_bit (nat (bitoffset mod 8)) (0x80 :: byte) in
        case py_get buf idx of
          Inl e \<Rightarrow> Inl e
        | Inr b \<Rightarrow>
            py_set buf idx (if bit' \<noteq> 0 then b OR mask else b AND (NOT mask AND 0xFF)))"

text \<open>The loops \<^verbatim>\<open>for i in range(nbits)\<close>, over the list of the values of \<open>i\<close>.\<close>

fun getbits_loop :: "byte list \<Rightarrow> int \<Rightarrow> nat list \<Rightarrow> int \<Rightarrow> error + int" where
  "getbits_loop buf bitoffset [] v = Inr v"
| "getbits_loop buf bitoffset (i # is) v =
     (case getbit buf (bitoffset + int i) of
        Inl e \<Rightarrow> Inl e
      | Inr b \<Rightarrow> getbits_loop buf bitoffset is (push_bit 1 v OR b))"

definition getbits :: "byte list \<Rightarrow> int \<Rightarrow> int \<Rightarrow> error + int" where
  "getbits buf bitoffset nbits = getbits_loop buf bitoffset [0..<nat nbits] 0"

fun setbits_loop :: "byte list \<Rightarrow> int \<Rightarrow> int \<Rightarrow> int \<Rightarrow> nat list \<Rightarrow> error + byte list" where
  "setbits_loop buf bitoffset nbits val [] = Inr buf"
| "setbits_loop buf bitoffset nbits val (i # is) =
     (let bit' = (if val AND push_bit (nat (nbits - 1 - int i)) 1 \<noteq> 0 then 1 else 0) in
      case setbit buf bit' (bitoffset + int i) of
        Inl e \<Rightarrow> Inl e
      | Inr buf1 \<Rightarrow> setbits_loop buf1 bitoffset nbits val is)"

definition setbits :: "byte list \<Rightarrow> int \<Rightarrow> int \<Rightarrow> int \<Rightarrow> error + byte list" where
  "setbits buf bitoffset nbits val = setbits_loop buf bitoffset nbits val [0..<nat nbits]"

section \<open>Frames\<close>

definition DEFAULT_CHANMAP :: int where
  "DEFAULT_CHANMAP = 0x1A00"

definition fsizetable :: "int list" where
  "fsizetable =
     [
      64, 64, 80, 80, 96, 96, 112, 112, 128, 128, 160, 160, 192, 192, 224, 224, 256, 256, 320, 320, 384, 384, 448, 448, 512, 512, 640, 640, 768, 768, 896, 896,
      1024, 1024, 1152, 1152, 1280, 1280, 0, 0, 0, 0, 0, 0, 0, 0, 0, 0, 0, 0, 0, 0, 0, 0, 0, 0, 0, 0, 0, 0, 0, 0, 0, 0,
      69, 70, 87, 88, 104, 105, 121, 122, 139, 140, 174, 175, 208, 209, 243, 244, 278, 279, 348, 349, 417, 418, 487, 488, 557, 558, 696, 697, 835, 836, 975, 976,
      1114, 1115, 1253, 1254, 1393, 1394, 0, 0, 0, 0, 0, 0, 0, 0, 0, 0, 0, 0, 0, 0, 0, 0, 0, 0, 0, 0, 0, 0, 0, 0, 0, 0,
      96, 96, 120, 120, 144, 144, 168, 168, 192, 192, 240, 240, 288, 288, 336, 336, 384, 384, 480, 480, 576, 576, 672, 672, 768, 768, 960, 960, 1152, 1152, 1344, 1344,
      1536, 1536, 1728, 1728, 1920, 1920, 0, 0, 0, 0, 0, 0, 0, 0, 0, 0, 0, 0, 0, 0, 0, 0, 0, 0, 0, 0, 0, 0, 0, 0, 0, 0,
      0, 0, 0, 0, 0, 0, 0, 0, 0, 0, 0, 0, 0, 0, 0, 0, 0, 0, 0, 0, 0, 0, 0, 0, 0, 0, 0, 0, 0, 0, 0, 0,
      0, 0, 0, 0, 0, 0, 0, 0, 0, 0, 0, 0, 0, 0, 0, 0, 0, 0, 0, 0, 0, 0, 0, 0, 0, 0
     ]"

text \<open>
  The input file is the list of the bytes not yet read. \<^verbatim>\<open>f.read(n)\<close> returns at most
  \<open>n\<close> bytes (all of them for a negative \<open>n\<close>) and advances the file.
\<close>

definition read_exact :: "byte list \<Rightarrow> int \<Rightarrow> byte list \<times> byte list" where
  "read_exact f n = (if n < 0 then (f, []) else (take (nat n) f, drop (nat n) f))"

text \<open>
  \<^verbatim>\<open>read_frame\<close> returns the tuple \<open>(fr, frame_len, eof, kind)\<close> of the source, and the
  file as it leaves it.
\<close>

definition read_frame ::
  "byte list \<Rightarrow> error + ((byte list option \<times> int \<times> bool \<times> string) \<times> byte list)" where
  "read_frame fin =
     (let (head, fin1) = read_exact fin 6 in
      if length head = 0 then Inr ((None, 0, True, ''''), fin1)
      else if length head < 6 then Inl (PatchError ''Unexpected EOF (short header)'')
      else
        let fr = head in
        if fr ! 0 \<noteq> 0x0B \<or> fr ! 1 \<noteq> 0x77 then
          Inl (PatchError ''Bad syncword (expected 0x0B 0x77)'')
        else
          let bsid = drop_bit 3 (uint (fr ! 5)) in
          case
            (if bsid < 10 then
               let frmsizecod = uint (fr ! 4) in
               case py_get fsizetable frmsizecod of
                 Inl e \<Rightarrow> Inl e
               | Inr t \<Rightarrow>
                   let frame_len = t * 2 in
                   if frame_len = 0 then Inl (PatchError ''Invalid AC-3 frmsizecod'')
                   else Inr (frame_len, ''ac3'')
             else
               let frame_len = (256 * (uint (fr ! 2) AND 7) + uint (fr ! 3)) * 2 + 2 in
               if frame_len < 10 then Inl (PatchError ''Invalid E-AC-3 frmsiz'')
               else Inr (frame_len, ''eac3''))
          of
            Inl e \<Rightarrow> Inl e
          | Inr (frame_len, kind) \<Rightarrow>
              let (tail, fin2) = read_exact fin1 (frame_len - 6) in
              if int (length tail) \<noteq> frame_len - 6 then
                Inl (PatchError ''Unexpected EOF (truncated frame)'')
              else Inr ((Some (fr @ tail), frame_len, False, kind), fin2))"

section \<open>E-AC-3 header positions\<close>

record positions =
  strmtype :: int
  dialnorm_pos :: int
  compre_pos :: int
  compr_pos :: int
  scan_start :: int

definition eac3_parse_positions :: "byte list \<Rightarrow> error + positions" where
  "eac3_parse_positions fr =
     (let off = 16 in
      case getbits fr off 2 of
        Inl e \<Rightarrow> Inl e
      | Inr strmtype_v \<Rightarrow>
          let off = off + 2;
              off = off + 3;
              off = off + 11;
              off = off + 2;
              off = off + 2;
              off = off + 3;
              off = off + 1;
              off = off + 5;
              dialnorm_pos_v = off;
              off = off + 5;
              compre_pos_v = off
          in
          case getbits fr off 1 of
            Inl e \<Rightarrow> Inl e
          | Inr compre \<Rightarrow>
              let off = off + 1;
                  compr_pos_v = off;
                  off = (if compre = 1 then off + 8 else off)
              in
              Inr \<lparr>strmtype = strmtype_v, dialnorm_pos = dialnorm_pos_v,
                   compre_pos = compre_pos_v, compr_pos = compr_pos_v, scan_start = off\<rparr>)"

section \<open>Chanmap position detector\<close>

text \<open>
  A Python \<^verbatim>\<open>dict\<close> keeps its keys in insertion order, and the selection loop below
  iterates in that order: a dict is an association list with distinct keys, a new key goes to
  the end, and an assignment to a key already there keeps its place.
\<close>

type_synonym hist = "(int \<times> int) list"
type_synonym pos_hist = "(int \<times> hist) list"

fun dict_set :: "('k \<times> 'v) list \<Rightarrow> 'k \<Rightarrow> 'v \<Rightarrow> ('k \<times> 'v) list" where
  "dict_set [] k v = [(k, v)]"
| "dict_set ((k', v') # d) k v = (if k' = k then (k, v) # d else (k', v') # dict_set d k v)"

text \<open>The body of the loop over \<open>p\<close>: the presence bit, the 16-bit value, the histogram update.\<close>

definition scan_bit :: "byte list \<Rightarrow> pos_hist \<Rightarrow> int \<Rightarrow> error + pos_hist" where
  "scan_bit fr pos_hist p =
     (case getbit fr p of
        Inl e \<Rightarrow> Inl e
      | Inr b \<Rightarrow>
          if b \<noteq> 1 then Inr pos_hist
          else
            case getbits fr (p + 1) 16 of
              Inl e \<Rightarrow> Inl e
            | Inr v \<Rightarrow>
                if v = 0x0000 \<or> v = 0xFFFF then Inr pos_hist
                else
                  let d = (case map_of pos_hist (p + 1) of None \<Rightarrow> [] | Some d0 \<Rightarrow> d0);
                      d1 = dict_set d v ((case map_of d v of None \<Rightarrow> 0 | Some c \<Rightarrow> c) + 1)
                  in Inr (dict_set pos_hist (p + 1) d1))"

fun scan_positions :: "byte list \<Rightarrow> int list \<Rightarrow> pos_hist \<Rightarrow> error + pos_hist" where
  "scan_positions fr [] pos_hist = Inr pos_hist"
| "scan_positions fr (p # ps) pos_hist =
     (case scan_bit fr pos_hist p of
        Inl e \<Rightarrow> Inl e
      | Inr pos_hist1 \<Rightarrow> scan_positions fr ps pos_hist1)"

text \<open>The candidate offsets of one frame: \<^verbatim>\<open>range(start, end)\<close>.\<close>

definition scan_window :: "byte list \<Rightarrow> int \<Rightarrow> int \<Rightarrow> int list" where
  "scan_window fr start extra_bits =
     (let end' = min (int (length fr) * 8 - 17) (start + extra_bits) in [start..end' - 1])"

text \<open>The body of the loop over the samples.\<close>

definition scan_frame :: "int \<Rightarrow> pos_hist \<Rightarrow> byte list \<Rightarrow> error + pos_hist" where
  "scan_frame extra_bits pos_hist fr =
     (case py_get fr 5 of
        Inl e \<Rightarrow> Inl e
      | Inr b5 \<Rightarrow>
          if drop_bit 3 (uint b5) < 10 then Inr pos_hist
          else
            case eac3_parse_positions fr of
              Inl e \<Rightarrow> Inl e
            | Inr info \<Rightarrow>
                if strmtype info \<noteq> 1 then Inr pos_hist
                else scan_positions fr (scan_window fr (scan_start info) extra_bits) pos_hist)"

fun scan_samples :: "int \<Rightarrow> byte list list \<Rightarrow> pos_hist \<Rightarrow> error + pos_hist" where
  "scan_samples extra_bits [] pos_hist = Inr pos_hist"
| "scan_samples extra_bits (fr # samples) pos_hist =
     (case scan_frame extra_bits pos_hist fr of
        Inl e \<Rightarrow> Inl e
      | Inr pos_hist1 \<Rightarrow> scan_samples extra_bits samples pos_hist1)"

text \<open>
  Python's \<^verbatim>\<open>max\<close> raises \<^verbatim>\<open>ValueError\<close> on an empty sequence. The score is a Python
  float in the source; it is computed here in exact rational arithmetic.
\<close>

definition py_max :: "int list \<Rightarrow> error + int" where
  "py_max xs = (case xs of [] \<Rightarrow> Inl ValueError | x # ys \<Rightarrow> Inr (fold max ys x))"

definition hist_score :: "hist \<Rightarrow> error + rat" where
  "hist_score h =
     (let total = sum_list (map snd h) in
      case py_max (map snd h) of
        Inl e \<Rightarrow> Inl e
      | Inr top' \<Rightarrow>
          let stability = (if total \<noteq> 0 then of_int top' / of_int total else 0) in
          Inr (of_int total * stability ^ 2))"

fun best_loop :: "pos_hist \<Rightarrow> int option \<Rightarrow> rat \<Rightarrow> error + int option" where
  "best_loop [] best_pos best_score = Inr best_pos"
| "best_loop ((pos, h) # items) best_pos best_score =
     (case hist_score h of
        Inl e \<Rightarrow> Inl e
      | Inr score \<Rightarrow>
          if score > best_score then best_loop items (Some pos) score
          else best_loop items best_pos best_score)"

definition find_chanmap_bitpos :: "byte list list \<Rightarrow> int \<Rightarrow> error + int option" where
  "find_chanmap_bitpos samples extra_bits =
     (case scan_samples extra_bits samples [] of
        Inl e \<Rightarrow> Inl e
      | Inr pos_hist \<Rightarrow>
          if pos_hist = [] then Inr None else best_loop pos_hist None (- 1))"

section \<open>The two passes\<close>

text \<open>The discovery loop \<^verbatim>\<open>while len(samples) < 8\<close> of \<^verbatim>\<open>patch_file\<close>.\<close>

function collect_samples :: "byte list \<Rightarrow> byte list list \<Rightarrow> error + byte list list" where
  "collect_samples fin samples =
     (if length samples < 8 then
        case read_frame fin of
          Inl e \<Rightarrow> Inl e
        | Inr ((fr_opt, frlen, eof, kind), fin1) \<Rightarrow>
            if eof then Inr samples
            else
              case fr_opt of
                None \<Rightarrow> Inl AssertionError
              | Some fr \<Rightarrow>
                  if kind = ''eac3'' then
                    case eac3_parse_positions fr of
                      Inl e \<Rightarrow> Inl e
                    | Inr info \<Rightarrow>
                        if strmtype info = 1 then collect_samples fin1 (samples @ [fr])
                        else collect_samples fin1 samples
                  else collect_samples fin1 samples
      else Inr samples)"
  by pat_completeness auto
termination
  by (relation "measure (\<lambda>(fin, samples). length fin)")
     (auto simp: read_frame_def read_exact_def Let_def split: if_splits sum.splits prod.splits)

text \<open>
  What the patch loop does to one E-AC-3 frame before writing it: the forced fields, the
  chanmap of a dependent frame, the checksum. The result is the frame and \<^verbatim>\<open>changed\<close>.
\<close>

definition patch_eac3 :: "int \<Rightarrow> byte list \<Rightarrow> int \<Rightarrow> error + (byte list \<times> bool)" where
  "patch_eac3 chanmap_pos fr frlen =
     (case eac3_parse_positions fr of
        Inl e \<Rightarrow> Inl e
      | Inr info \<Rightarrow>
          case setbits fr (compre_pos info) 1 1 of
            Inl e \<Rightarrow> Inl e
          | Inr fr1 \<Rightarrow>
              case setbits fr1 (compr_pos info) 8 0xFF of
                Inl e \<Rightarrow> Inl e
              | Inr fr2 \<Rightarrow>
                  case (if strmtype info = 1 then setbits fr2 chanmap_pos 16 DEFAULT_CHANMAP
                        else Inr fr2) of
                    Inl e \<Rightarrow> Inl e
                  | Inr fr3 \<Rightarrow>
                      let changed = True in
                      if changed then
                        case eac3_rewrite_crc2_like_c fr3 frlen of
                          Inl e \<Rightarrow> Inl e
                        | Inr fr4 \<Rightarrow> Inr (fr4, changed)
                      else Inr (fr3, changed))"

record stats =
  total_frames :: int
  ac3_count :: int
  eac3_count :: int
  patched_eac3 :: int

text \<open>
  The patch loop \<^verbatim>\<open>while True\<close>: the input not yet read, the bytes written to the output
  so far, the counters. An exception leaves the output file with what was written before it.
\<close>

function patch_loop ::
  "int \<Rightarrow> byte list \<Rightarrow> byte list \<Rightarrow> stats \<Rightarrow> byte list \<times> (error + stats)" where
  "patch_loop chanmap_pos fin fout st =
     (case read_frame fin of
        Inl e \<Rightarrow> (fout, Inl e)
      | Inr ((fr_opt, frlen, eof, kind), fin1) \<Rightarrow>
          if eof then (fout, Inr st)
          else
            case fr_opt of
              None \<Rightarrow> (fout, Inl AssertionError)
            | Some fr \<Rightarrow>
                let st1 = st\<lparr>total_frames := total_frames st + 1\<rparr> in
                if kind = ''ac3'' then
                  patch_loop chanmap_pos fin1 (fout @ fr) (st1\<lparr>ac3_count := ac3_count st1 + 1\<rparr>)
                else
                  let st2 = st1\<lparr>eac3_count := eac3_count st1 + 1\<rparr> in
                  case patch_eac3 chanmap_pos fr frlen of
                    Inl e \<Rightarrow> (fout, Inl e)
                  | Inr (fr4, changed) \<Rightarrow>
                      patch_loop chanmap_pos fin1 (fout @ fr4)
                        (if changed then st2\<lparr>patched_eac3 := patched_eac3 st2 + 1\<rparr> else st2))"
  by pat_completeness auto
termination
  by (relation "measure (\<lambda>(chanmap_pos, fin, fout, st). length fin)")
     (auto simp: read_frame_def read_exact_def Let_def split: if_splits sum.splits prod.splits)

text \<open>
  \<^verbatim>\<open>patch_file\<close> on an input file with the given content. The first component is the
  output file: \<open>None\<close> when it was never opened, otherwise the bytes written to it. The
  second is the exception raised, or the detected position and the counters that are printed.
\<close>

definition patch_file :: "byte list \<Rightarrow> byte list option \<times> (error + (int \<times> stats))" where
  "patch_file input =
     (case collect_samples input [] of
        Inl e \<Rightarrow> (None, Inl e)
      | Inr samples \<Rightarrow>
          case find_chanmap_bitpos samples 2048 of
            Inl e \<Rightarrow> (None, Inl e)
          | Inr None \<Rightarrow>
              (None, Inl (PatchError
                 ''Could not detect the chanmap location in dependent E-AC-3 frames.''))
          | Inr (Some chanmap_pos) \<Rightarrow>
              let (fout, r) =
                    patch_loop chanmap_pos input []
                      \<lparr>total_frames = 0, ac3_count = 0, eac3_count = 0, patched_eac3 = 0\<rparr>
              in (Some fout, case r of Inl e \<Rightarrow> Inl e | Inr st \<Rightarrow> Inr (chanmap_pos, st)))"

section \<open>Bits of a buffer, for the proofs\<close>

text \<open>
  The bit of a buffer at a natural-number offset (false beyond the end), and the buffer with one
  bit, or \<open>n\<close> bits, replaced: what \<open>getbit\<close>, \<open>setbit\<close>, \<open>setbits\<close> and \<open>getbits\<close>
  compute at offsets that are not negative.
\<close>

definition bit_at :: "byte list \<Rightarrow> nat \<Rightarrow> bool" where
  "bit_at buf k = (k div 8 < length buf \<and> bit (buf ! (k div 8)) (7 - k mod 8))"

definition put_bit :: "byte list \<Rightarrow> bool \<Rightarrow> nat \<Rightarrow> byte list" where
  "put_bit buf b k =
     (if k div 8 < length buf
      then buf[k div 8 := (if b then set_bit (7 - k mod 8) (buf ! (k div 8))
                           else unset_bit (7 - k mod 8) (buf ! (k div 8)))]
      else buf)"

definition put_bits :: "byte list \<Rightarrow> nat \<Rightarrow> nat \<Rightarrow> int \<Rightarrow> byte list" where
  "put_bits buf off n val = fold (\<lambda>i b. put_bit b (bit val (n - 1 - i)) (off + i)) [0..<n] buf"

definition bits_val :: "byte list \<Rightarrow> nat \<Rightarrow> nat \<Rightarrow> int" where
  "bits_val buf off n =
     fold (\<lambda>i v. push_bit 1 v OR (if bit_at buf (off + i) then 1 else 0)) [0..<n] 0"

section \<open>The detector's conditions, for the proofs\<close>

text \<open>
  The conditions of \<open>find_chanmap_bitpos\<close> by name: an offset qualifies in a frame when its
  presence bit is set and the 16 bits after it are neither \<open>0x0000\<close> nor \<open>0xFFFF\<close>; a
  sample is scanned when it is a dependent E-AC-3 frame; its candidates are the offsets of the
  loop over \<open>p\<close>; \<open>hist_add\<close> is the histogram update; \<open>recorded\<close> lists the keys a sample
  records, in order, and \<open>add_key\<close> is what a dict does with a key.
\<close>

definition qualifies :: "byte list \<Rightarrow> int \<Rightarrow> bool" where
  "qualifies fr p =
     (getbit fr p = Inr 1 \<and>
      (case getbits fr (p + 1) 16 of Inl e \<Rightarrow> False | Inr v \<Rightarrow> v \<noteq> 0x0000 \<and> v \<noteq> 0xFFFF))"

definition is_dependent :: "byte list \<Rightarrow> bool" where
  "is_dependent fr =
     (case py_get fr 5 of
        Inl e \<Rightarrow> False
      | Inr b5 \<Rightarrow>
          \<not> drop_bit 3 (uint b5) < 10 \<and>
          (case eac3_parse_positions fr of Inl e \<Rightarrow> False | Inr info \<Rightarrow> strmtype info = 1))"

definition hist_ok :: "pos_hist \<Rightarrow> bool" where
  "hist_ok ph = (\<forall>(k, h) \<in> set ph. h \<noteq> [] \<and> (\<forall>(v, c) \<in> set h. 1 \<le> c))"

definition hist_add :: "pos_hist \<Rightarrow> int \<Rightarrow> int \<Rightarrow> pos_hist" where
  "hist_add ph k v =
     (let d = (case map_of ph k of None \<Rightarrow> [] | Some d0 \<Rightarrow> d0);
          d1 = dict_set d v ((case map_of d v of None \<Rightarrow> 0 | Some c \<Rightarrow> c) + 1)
      in dict_set ph k d1)"

definition add_key :: "'k \<Rightarrow> 'k list \<Rightarrow> 'k list" where
  "add_key k ks = (if k \<in> set ks then ks else ks @ [k])"

definition candidates :: "int \<Rightarrow> byte list \<Rightarrow> int list" where
  "candidates extra_bits fr =
     (case eac3_parse_positions fr of
        Inl e \<Rightarrow> []
      | Inr info \<Rightarrow> scan_window fr (scan_start info) extra_bits)"

definition recorded :: "int \<Rightarrow> byte list \<Rightarrow> int list" where
  "recorded extra_bits fr =
     (if is_dependent fr then map (\<lambda>p. p + 1) (filter (qualifies fr) (candidates extra_bits fr))
      else [])"

definition score_of :: "hist \<Rightarrow> rat" where
  "score_of h = (case hist_score h of Inl e \<Rightarrow> 0 | Inr s \<Rightarrow> s)"

section \<open>Bit access\<close>

lemma bit_0x80: "bit (0x80::byte) k \<longleftrightarrow> k = 7"
proof -
  have "bit ((2::byte) ^ 7) k \<longleftrightarrow> k = 7"
    by (simp only: bit_exp_iff) (auto simp: possible_bit_word)
  then show ?thesis by simp
qed

lemma mask_eq: "m < 8 \<Longrightarrow> drop_bit m (0x80::byte) = push_bit (7 - m) 1"
proof (rule bit_word_eqI)
  fix n assume m: "m < 8" and n: "n < LENGTH(8)"
  have "bit (drop_bit m (0x80::byte)) n \<longleftrightarrow> m + n = 7"
    by (simp only: bit_drop_bit_eq bit_0x80 o_apply)
  moreover have "bit (push_bit (7 - m) (1::byte)) n \<longleftrightarrow> n = 7 - m"
    using n by (simp only: bit_push_bit_iff bit_1_iff possible_bit_word) auto
  ultimately show "bit (drop_bit m (0x80::byte)) n = bit (push_bit (7 - m) (1::byte)) n"
    using m by auto
qed

lemma mask_bit: "m < 8 \<Longrightarrow> (w AND drop_bit m (0x80::byte) \<noteq> 0) = bit w (7 - m)"
  by (simp only: mask_eq bit_iff_and_push_bit_not_eq_0)

lemma set_mask: "m < 8 \<Longrightarrow> w OR drop_bit m (0x80::byte) = set_bit (7 - m) w"
  by (simp only: mask_eq set_bit_eq_or)

lemma and_0xFF: "(x :: byte) AND 0xFF = x"
proof -
  have "(0xFF :: byte) = - 1" by simp
  then show ?thesis by (simp only: and.right_neutral)
qed

lemma clear_mask: "m < 8 \<Longrightarrow> w AND (NOT (drop_bit m (0x80::byte)) AND 0xFF) = unset_bit (7 - m) w"
  by (simp only: mask_eq unset_bit_eq_and_not and_0xFF)

lemma int_div8: "int k div 8 = int (k div 8)"
  by (simp add: zdiv_int)

lemma int_mod8: "nat (int k mod 8) = k mod 8"
  by (simp add: nat_mod_distrib)

lemma getbit_nat: "getbit buf (int k) = Inr (if bit_at buf k then 1 else 0)"
  by (simp add: getbit_def py_get_def py_index_def Let_def bit_at_def int_div8 int_mod8 mask_bit)

lemma setbit_nat: "setbit buf b (int k) = Inr (put_bit buf (b \<noteq> 0) k)"
  by (simp add: setbit_def py_get_def py_set_def py_index_def Let_def put_bit_def int_div8 int_mod8
      set_mask clear_mask del: bit.conj_one_right)

lemma length_put_bit [simp]: "length (put_bit buf b k) = length buf"
  by (simp add: put_bit_def)

lemma same_bit_iff: "q div 8 = k div 8 \<Longrightarrow> (7 - q mod 8 = 7 - k mod 8) = (q = (k::nat))"
proof -
  assume d: "q div 8 = k div 8"
  have "q = 8 * (q div 8) + q mod 8" "k = 8 * (k div 8) + k mod 8" by simp_all
  moreover have "q mod 8 < 8" "k mod 8 < 8" by simp_all
  ultimately show ?thesis using d by arith
qed

lemma bit_at_put_bit:
  "bit_at (put_bit buf b k) q = (if q = k \<and> k div 8 < length buf then b else bit_at buf q)"
proof (cases "q div 8 = k div 8")
  case True
  have "7 - q mod 8 < 8" by simp
  then show ?thesis
    using True same_bit_iff [OF True]
    by (auto simp add: bit_at_def put_bit_def bit_set_bit_iff bit_unset_bit_iff possible_bit_word)
next
  case False
  then show ?thesis
    by (auto simp add: bit_at_def put_bit_def)
qed

lemma bit_at_out: "8 * length buf \<le> q \<Longrightarrow> \<not> bit_at buf q"
proof -
  assume "8 * length buf \<le> q"
  then have "length buf \<le> q div 8" by arith
  then show ?thesis by (simp add: bit_at_def)
qed

lemma bits_eqI:
  assumes "length a = length b" and "\<And>q. q < 8 * length a \<Longrightarrow> bit_at a q = bit_at b q"
  shows "a = b"
proof (rule nth_equalityI)
  show "length a = length b" by fact
next
  fix i assume i: "i < length a"
  show "a ! i = b ! i"
  proof (rule bit_word_eqI)
    fix n assume n: "n < LENGTH(8)"
    define q where "q = 8 * i + (7 - n)"
    have "q mod 8 = (7 - n) mod 8" unfolding q_def by (simp only: mod_mult_self4)
    then have qm: "7 - q mod 8 = n" using n by simp
    have qd: "q div 8 = i" unfolding q_def using n by simp
    have "q < 8 * length a" unfolding q_def using i n by simp
    then have "bit_at a q = bit_at b q" by (rule assms(2))
    then show "bit (a ! i) n = bit (b ! i) n"
      using i assms(1) by (simp add: bit_at_def qm qd)
  qed
qed

lemma setbits_loop_nat:
  "\<forall>i \<in> set is. i < n \<Longrightarrow>
   setbits_loop buf (int off) (int n) val is =
     Inr (fold (\<lambda>i b. put_bit b (bit val (n - 1 - i)) (off + i)) is buf)"
proof (induction "is" arbitrary: buf)
  case Nil
  then show ?case by simp
next
  case (Cons i "is")
  have s: "setbit b x (int off + int i) = Inr (put_bit b (x \<noteq> 0) (off + i))" for b x
    using setbit_nat [of b x "off + i"] by simp
  have "nat (int n - 1 - int i) = n - 1 - i" by simp
  then show ?case using Cons
    by (simp add: s bit_iff_and_push_bit_not_eq_0)
qed

lemma setbits_nat: "setbits buf (int off) (int n) val = Inr (put_bits buf off n val)"
  by (simp add: setbits_def put_bits_def setbits_loop_nat)

lemma getbits_loop_nat:
  "getbits_loop buf (int off) is v =
     Inr (fold (\<lambda>i v. push_bit 1 v OR (if bit_at buf (off + i) then 1 else 0)) is v)"
proof (induction "is" arbitrary: v)
  case Nil
  then show ?case by simp
next
  case (Cons i "is")
  have "getbit buf (int off + int i) = Inr (if bit_at buf (off + i) then 1 else 0)"
    using getbit_nat [of buf "off + i"] by simp
  then show ?case using Cons
    by simp
qed

lemma getbits_nat: "getbits buf (int off) (int n) = Inr (bits_val buf off n)"
  by (simp add: getbits_def bits_val_def getbits_loop_nat)

lemma length_fold_put_bit [simp]:
  "length (fold (\<lambda>i b. put_bit b (g i) (h i)) is buf) = length buf"
  by (induction "is" arbitrary: buf) simp_all

lemma length_put_bits [simp]: "length (put_bits buf off n val) = length buf"
  by (simp add: put_bits_def)

lemma bit_at_put_bits:
  "bit_at (put_bits buf off n val) q =
     (if off \<le> q \<and> q < off + n \<and> q < 8 * length buf then bit val (n - 1 - (q - off))
      else bit_at buf q)"
proof -
  let ?f = "\<lambda>i b. put_bit b (bit val (n - 1 - i)) (off + i)"
  have "bit_at (fold ?f [0..<k] buf) q =
     (if off \<le> q \<and> q < off + k \<and> q < 8 * length buf then bit val (n - 1 - (q - off))
      else bit_at buf q)" for k
  proof (induction k)
    case 0
    then show ?case by auto
  next
    case (Suc k)
    have "(off + k) div 8 < length buf \<longleftrightarrow> off + k < 8 * length buf" by arith
    then show ?case using Suc
      by (auto simp add: bit_at_put_bit)
  qed
  then show ?thesis by (simp add: put_bits_def)
qed

lemma bits_val_step:
  assumes "k < n"
  shows "push_bit 1 (drop_bit (n - k) (take_bit n val)) OR (if bit val (n - 1 - k) then 1 else 0)
         = drop_bit (n - Suc k) (take_bit n (val::int))"
proof (rule bit_eqI)
  fix j
  have 1: "bit (push_bit 1 A OR B) j \<longleftrightarrow> (1 \<le> j \<and> bit A (j - 1)) \<or> bit B j" for A B :: int
    by (simp only: bit_or_iff bit_push_bit_iff_int)
  have 2: "bit (drop_bit m X) i = bit X (m + i)" for m i and X :: int
    by (simp only: bit_drop_bit_eq o_apply)
  have 3: "bit (if c then 1 else 0 :: int) j \<longleftrightarrow> c \<and> j = 0" for c
    by (simp add: bit_1_iff)
  have 4: "bit (take_bit n val) i \<longleftrightarrow> i < n \<and> bit val i" for i
    by (simp only: bit_take_bit_iff)
  show "bit (push_bit 1 (drop_bit (n - k) (take_bit n val)) OR (if bit val (n - 1 - k) then 1 else 0)) j
        = bit (drop_bit (n - Suc k) (take_bit n val)) j"
  proof (cases j)
    case 0
    then show ?thesis unfolding 1 2 3 4 using assms by auto
  next
    case (Suc j')
    have "n - k + j' = n - Suc k + Suc j'" using assms by simp
    then show ?thesis unfolding 1 2 3 4 using assms Suc by auto
  qed
qed

lemma bits_val_put_bits:
  assumes "off + n \<le> 8 * length buf"
  shows "bits_val (put_bits buf off n val) off n = take_bit n val"
proof -
  let ?b = "put_bits buf off n val"
  let ?g = "\<lambda>i v. push_bit 1 v OR (if bit_at ?b (off + i) then 1 else 0)"
  have "k \<le> n \<Longrightarrow> fold ?g [0..<k] 0 = drop_bit (n - k) (take_bit n val)" for k
  proof (induction k)
    case 0
    then show ?case by (simp add: drop_bit_take_bit)
  next
    case (Suc k)
    then have k: "k < n" by simp
    then have "bit_at ?b (off + k) = bit val (n - 1 - k)"
      using assms by (simp add: bit_at_put_bits)
    then show ?case using Suc bits_val_step [OF k, of val]
      by simp
  qed
  from this [of n] show ?thesis by (simp add: bits_val_def)
qed

section \<open>Checksum repair\<close>








section \<open>Round trip and offsets out of range\<close>

text \<open>
  C9. For an offset \<open>off \<ge> 0\<close> and \<open>1 \<le> n \<le> 16\<close> with \<open>off + n\<close> inside the buffer,
  \<open>setbits\<close> succeeds and \<open>getbits\<close> at the same offset of the buffer it leaves returns
  \<open>v mod 2 ^ n\<close>. For an offset at or beyond the end of the buffer \<open>getbit\<close> returns 0 and
  \<open>setbit\<close> returns the buffer unchanged; neither raises.
\<close>

theorem setbits_getbits_roundtrip:
  "(0 \<le> off \<and> 1 \<le> n \<and> n \<le> 16 \<and> off + n \<le> 8 * int (length buf) \<longrightarrow>
      (\<exists>buf'. setbits buf off n v = Inr buf' \<and> getbits buf' off n = Inr (v mod 2 ^ nat n)))
   \<and> (8 * int (length buf) \<le> pos \<longrightarrow> getbit buf pos = Inr 0 \<and> setbit buf b pos = Inr buf)"
proof (intro conjI impI)
  assume a: "0 \<le> off \<and> 1 \<le> n \<and> n \<le> 16 \<and> off + n \<le> 8 * int (length buf)"
  then have eq: "off = int (nat off)" "n = int (nat n)" by simp_all
  have le: "nat off + nat n \<le> 8 * length buf" using a by linarith
  have "setbits buf off n v = Inr (put_bits buf (nat off) (nat n) v)"
    using setbits_nat [of buf "nat off" "nat n" v] eq by simp
  moreover have "getbits (put_bits buf (nat off) (nat n) v) off n = Inr (v mod 2 ^ nat n)"
    using getbits_nat [of "put_bits buf (nat off) (nat n) v" "nat off" "nat n"] eq
      bits_val_put_bits [OF le, of v]
    by (simp add: take_bit_eq_mod)
  ultimately show "\<exists>buf'. setbits buf off n v = Inr buf' \<and> getbits buf' off n = Inr (v mod 2 ^ nat n)"
    by blast
next
  assume "8 * int (length buf) \<le> pos"
  then have "int (length buf) \<le> pos div 8" by linarith
  then show "getbit buf pos = Inr 0" by (simp add: getbit_def)
next
  assume "8 * int (length buf) \<le> pos"
  then have "int (length buf) \<le> pos div 8" by linarith
  then show "setbit buf b pos = Inr buf" by (simp add: setbit_def)
qed

text \<open>C9 at a 3-byte buffer: 11 bits at offset 5, and offset 24, the first one past the end.\<close>

theorem setbits_getbits_roundtrip_witness:
  "(\<exists>buf'. setbits [0x12, 0x34, 0x56] 5 11 0xABCD = Inr buf' \<and> getbits buf' 5 11 = Inr (0xABCD mod 2 ^ nat 11))
   \<and> getbit [0x12, 0x34, 0x56] 24 = Inr 0 \<and> setbit [0x12, 0x34, 0x56] 1 24 = Inr [0x12, 0x34, 0x56]"
  using setbits_getbits_roundtrip [where off = 5 and n = 11 and buf = "[0x12, 0x34, 0x56]"
      and v = "0xABCD" and pos = 24 and b = 1]
  by simp

text \<open>
  C10. For a negative offset \<open>pos\<close> with \<open>-8 * len \<le> pos\<close>, \<open>getbit\<close> reads and
  \<open>setbit\<close> writes, under the mask \<open>0x80 >> (pos mod 8)\<close>, the byte at the Python index
  \<open>pos div 8\<close>, which is the byte \<open>len + pos div 8\<close> counted from the start; the result of
  \<open>getbit\<close> is that bit, not the constant 0. For \<open>pos < -8 * len\<close> (so for every negative
  offset of an empty buffer) both raise \<open>IndexError\<close>.
\<close>

theorem getbit_setbit_negative_offset:
  "(- 8 * int (length buf) \<le> pos \<and> pos < 0 \<longrightarrow>
      getbit buf pos =
        Inr (if buf ! nat (int (length buf) + pos div 8) AND drop_bit (nat (pos mod 8)) 0x80 \<noteq> 0
             then 1 else 0) \<and>
      setbit buf b pos =
        Inr (buf[nat (int (length buf) + pos div 8) :=
               (if b \<noteq> 0
                then buf ! nat (int (length buf) + pos div 8) OR drop_bit (nat (pos mod 8)) 0x80
                else buf ! nat (int (length buf) + pos div 8) AND
                     (NOT (drop_bit (nat (pos mod 8)) 0x80) AND 0xFF))]) \<and>
      nat (int (length buf) + pos div 8) < length buf)
   \<and> (pos < - 8 * int (length buf) \<longrightarrow>
        getbit buf pos = Inl IndexError \<and> setbit buf b pos = Inl IndexError)"
proof (intro conjI impI)
  assume a: "- 8 * int (length buf) \<le> pos \<and> pos < 0"
  then have d: "pos div 8 < 0" "- int (length buf) \<le> pos div 8" by linarith+
  then have i: "py_index buf (pos div 8) = Inr (nat (int (length buf) + pos div 8))"
    by (simp add: py_index_def)
  have lt: "\<not> int (length buf) \<le> pos div 8" using d by linarith
  show "getbit buf pos =
        Inr (if buf ! nat (int (length buf) + pos div 8) AND drop_bit (nat (pos mod 8)) 0x80 \<noteq> 0
             then 1 else 0)"
    using lt by (simp add: getbit_def py_get_def i Let_def)
  show "setbit buf b pos =
        Inr (buf[nat (int (length buf) + pos div 8) :=
               (if b \<noteq> 0
                then buf ! nat (int (length buf) + pos div 8) OR drop_bit (nat (pos mod 8)) 0x80
                else buf ! nat (int (length buf) + pos div 8) AND
                     (NOT (drop_bit (nat (pos mod 8)) 0x80) AND 0xFF))])"
    using lt by (simp add: setbit_def py_get_def py_set_def i Let_def del: bit.conj_one_right)
  show "nat (int (length buf) + pos div 8) < length buf" using d by linarith
next
  assume a: "pos < - 8 * int (length buf)"
  then have d: "pos div 8 < - int (length buf)" by linarith
  then have i: "py_index buf (pos div 8) = Inl IndexError"
    by (simp add: py_index_def)
  have lt: "\<not> int (length buf) \<le> pos div 8" using d by linarith
  show "getbit buf pos = Inl IndexError"
    using lt by (simp add: getbit_def py_get_def i Let_def)
next
  assume a: "pos < - 8 * int (length buf)"
  then have d: "pos div 8 < - int (length buf)" by linarith
  then have i: "py_index buf (pos div 8) = Inl IndexError"
    by (simp add: py_index_def)
  have lt: "\<not> int (length buf) \<le> pos div 8" using d by linarith
  show "setbit buf b pos = Inl IndexError"
    using lt by (simp add: setbit_def py_get_def i Let_def)
qed

text \<open>
  C10 at offsets \<open>-1\<close> and \<open>-17\<close> of a 2-byte buffer, and at \<open>-1\<close> of the empty buffer:
  the last bit of the buffer is read as 1 and cleared.
\<close>

theorem getbit_setbit_negative_offset_witness:
  "getbit [0x00, 0x01] (- 1) = Inr 1 \<and> setbit [0x00, 0x01] 0 (- 1) = Inr [0x00, 0x00]
   \<and> getbit [0x00, 0x01] (- 17) = Inl IndexError \<and> setbit [0x00, 0x01] 0 (- 17) = Inl IndexError
   \<and> getbit [] (- 1) = Inl IndexError \<and> setbit [] 1 (- 1) = Inl IndexError"
  using getbit_setbit_negative_offset [where buf = "[0x00, 0x01]" and pos = "- 1" and b = 0]
        getbit_setbit_negative_offset [where buf = "[0x00, 0x01]" and pos = "- 17" and b = 0]
        getbit_setbit_negative_offset [where buf = "[]" and pos = "- 1" and b = 1]
  by simp

section \<open>Frame reader: the size table\<close>

lemma length_fsizetable: "length fsizetable = 250"
  by (simp add: fsizetable_def)

text \<open>
  C4 (the code departs from the claim). The table has 250 entries, so a header with valid
  sync, \<open>bsid < 10\<close> and byte 4 equal to 250 makes the lookup itself raise \<open>IndexError\<close>;
  byte 4 equal to 249 reaches a zero entry and is reported as an invalid frmsizecod.
\<close>

theorem read_frame_frmsizecod_250:
  "read_frame ([0x0B, 0x77, 0x00, 0x00, 0xFA, 0x40] @ rest) = Inl IndexError
   \<and> read_frame ([0x0B, 0x77, 0x00, 0x00, 0xF9, 0x40] @ rest) =
       Inl (PatchError ''Invalid AC-3 frmsizecod'')"
  by (simp add: read_frame_def read_exact_def py_get_def py_index_def length_fsizetable)
     (simp add: fsizetable_def)

text \<open>C4 at the 6-byte file that holds only the header.\<close>

theorem read_frame_frmsizecod_250_witness:
  "read_frame [0x0B, 0x77, 0x00, 0x00, 0xFA, 0x40] = Inl IndexError
   \<and> read_frame [0x0B, 0x77, 0x00, 0x00, 0xF9, 0x40] = Inl (PatchError ''Invalid AC-3 frmsizecod'')"
  using read_frame_frmsizecod_250 [of "[]"] by simp

section \<open>Chanmap position detector: the histogram\<close>

lemma getbits_nonneg: "0 \<le> off \<Longrightarrow> 0 \<le> n \<Longrightarrow> getbits buf off n = Inr (bits_val buf (nat off) (nat n))"
  using getbits_nat [of buf "nat off" "nat n"] by simp

lemma getbit_nonneg: "0 \<le> off \<Longrightarrow> getbit buf off = Inr (if bit_at buf (nat off) then 1 else 0)"
  using getbit_nat [of buf "nat off"] by simp

lemma setbits_nonneg: "0 \<le> off \<Longrightarrow> 0 \<le> n \<Longrightarrow> setbits buf off n v = Inr (put_bits buf (nat off) (nat n) v)"
  using setbits_nat [of buf "nat off" "nat n"] by simp

lemma eac3_parse_positions_eq:
  "eac3_parse_positions fr =
     Inr \<lparr>strmtype = bits_val fr 16 2, dialnorm_pos = 45, compre_pos = 50, compr_pos = 51,
          scan_start = (if bit_at fr 50 then 59 else 51)\<rparr>"
proof -
  have "bits_val fr 50 1 = (if bit_at fr 50 then 1 else 0)"
    by (simp add: bits_val_def)
  then show ?thesis
    by (simp add: eac3_parse_positions_def getbits_nonneg Let_def)
qed

lemma qualifies_nonneg:
  "0 \<le> p \<Longrightarrow> qualifies fr p \<longleftrightarrow>
     bit_at fr (nat p) \<and> bits_val fr (nat p + 1) 16 \<noteq> 0 \<and> bits_val fr (nat p + 1) 16 \<noteq> 0xFFFF"
  by (simp add: qualifies_def getbit_nonneg getbits_nonneg nat_add_distrib)

lemma scan_bit_nonneg:
  "0 \<le> p \<Longrightarrow>
   scan_bit fr ph p =
     Inr (if qualifies fr p then hist_add ph (p + 1) (bits_val fr (nat p + 1) 16) else ph)"
  by (simp add: scan_bit_def qualifies_nonneg getbit_nonneg getbits_nonneg nat_add_distrib Let_def
      hist_add_def)

lemma keys_dict_set: "map fst (dict_set d k v) = add_key k (map fst d)"
  by (induction d k v rule: dict_set.induct) (auto simp: add_key_def)

lemma map_of_dict_set: "map_of (dict_set d k v) = (map_of d)(k \<mapsto> v)"
  by (induction d k v rule: dict_set.induct) auto

lemma set_dict_set: "set (dict_set d k v) \<subseteq> insert (k, v) (set d)"
  by (induction d k v rule: dict_set.induct) auto

lemma dict_set_nonempty: "dict_set d k v \<noteq> []"
  by (cases d) (auto split: if_splits)

lemma hist_ok_step:
  assumes "hist_ok ph"
  shows "hist_ok (hist_add ph k v)"
proof -
  define d where "d = (case map_of ph k of None \<Rightarrow> [] | Some d0 \<Rightarrow> d0)"
  define c where "c = (case map_of d v of None \<Rightarrow> 0 | Some c \<Rightarrow> c)"
  have d: "\<forall>(v, c) \<in> set d. 1 \<le> c"
  proof (cases "map_of ph k")
    case None
    then show ?thesis by (simp add: d_def)
  next
    case (Some d0)
    then have "(k, d0) \<in> set ph" by (rule map_of_SomeD)
    then show ?thesis using assms Some by (auto simp: d_def hist_ok_def)
  qed
  then have "0 \<le> c"
    by (auto simp: c_def split: option.splits dest!: map_of_SomeD)
  then have "\<forall>(v, c) \<in> set (dict_set d v (c + 1)). 1 \<le> c"
    using d set_dict_set [of d v "c + 1"] by auto
  then have new: "dict_set d v (c + 1) \<noteq> [] \<and> (\<forall>(v, c) \<in> set (dict_set d v (c + 1)). 1 \<le> c)"
    by (simp add: dict_set_nonempty)
  have "hist_ok (dict_set ph k (dict_set d v (c + 1)))"
    unfolding hist_ok_def
  proof (intro ballI)
    fix x assume "x \<in> set (dict_set ph k (dict_set d v (c + 1)))"
    then have "x = (k, dict_set d v (c + 1)) \<or> x \<in> set ph"
      using set_dict_set [of ph k "dict_set d v (c + 1)"] by blast
    then show "case x of (k, h) \<Rightarrow> h \<noteq> [] \<and> (\<forall>(v, c) \<in> set h. 1 \<le> c)"
    proof
      assume "x = (k, dict_set d v (c + 1))"
      then show ?thesis using new by simp
    next
      assume "x \<in> set ph"
      then show ?thesis using assms unfolding hist_ok_def by (rule bspec [rotated])
    qed
  qed
  then show ?thesis by (simp add: d_def c_def hist_add_def Let_def)
qed

lemma keys_hist_add: "map fst (hist_add ph k v) = add_key k (map fst ph)"
  by (simp add: hist_add_def Let_def keys_dict_set)

lemma scan_bit_ok:
  assumes "0 \<le> p" "hist_ok ph"
  shows "\<exists>ph'. scan_bit fr ph p = Inr ph' \<and> hist_ok ph' \<and>
           map fst ph' = (if qualifies fr p then add_key (p + 1) (map fst ph) else map fst ph)"
  using assms by (simp add: scan_bit_nonneg hist_ok_step keys_hist_add)

lemma scan_positions_ok:
  assumes "\<forall>p \<in> set ps. 0 \<le> p" "hist_ok ph"
  shows "\<exists>ph'. scan_positions fr ps ph = Inr ph' \<and> hist_ok ph' \<and>
           map fst ph' = fold add_key (map (\<lambda>p. p + 1) (filter (qualifies fr) ps)) (map fst ph)"
  using assms
proof (induction ps arbitrary: ph)
  case Nil
  then show ?case by simp
next
  case (Cons p ps)
  then obtain ph1 where 1: "scan_bit fr ph p = Inr ph1" "hist_ok ph1"
      "map fst ph1 = (if qualifies fr p then add_key (p + 1) (map fst ph) else map fst ph)"
    using scan_bit_ok [of p ph fr] by auto
  from Cons.IH [of ph1] Cons.prems 1(2)
  obtain ph' where 2: "scan_positions fr ps ph1 = Inr ph'" "hist_ok ph'"
      "map fst ph' = fold add_key (map (\<lambda>p. p + 1) (filter (qualifies fr) ps)) (map fst ph1)"
    by auto
  show ?case using 1 2 by simp
qed

lemma set_fold_add_key: "set (fold add_key xs ks) = set ks \<union> set xs"
  by (induction xs arbitrary: ks) (auto simp: add_key_def)


lemma scan_window_set:
  "set (scan_window fr start extra_bits) =
     {p. start \<le> p \<and> p < int (length fr) * 8 - 17 \<and> p < start + extra_bits}"
  by (auto simp: scan_window_def Let_def)


lemma scan_start_cases:
  "eac3_parse_positions fr = Inr info \<Longrightarrow> scan_start info = 51 \<or> scan_start info = 59"
  by (auto simp: eac3_parse_positions_eq)

lemma candidates_nonneg: "p \<in> set (candidates extra_bits fr) \<Longrightarrow> 51 \<le> p"
  by (auto simp: candidates_def eac3_parse_positions_eq scan_window_set split: if_splits)

lemma scan_frame_eq:
  "scan_frame extra_bits ph fr =
     (if length fr < 6 then Inl IndexError
      else if is_dependent fr then scan_positions fr (candidates extra_bits fr) ph
      else Inr ph)"
  by (auto simp: scan_frame_def is_dependent_def candidates_def py_get_def py_index_def
      eac3_parse_positions_eq)

lemma scan_frame_ok:
  assumes "6 \<le> length fr" "hist_ok ph"
  shows "\<exists>ph'. scan_frame extra_bits ph fr = Inr ph' \<and> hist_ok ph' \<and>
           map fst ph' = fold add_key (recorded extra_bits fr) (map fst ph)"
proof (cases "is_dependent fr")
  case True
  have "\<forall>p \<in> set (candidates extra_bits fr). 0 \<le> p"
    using candidates_nonneg by fastforce
  from scan_positions_ok [OF this assms(2), of fr] show ?thesis
    using assms(1) True by (simp add: scan_frame_eq recorded_def)
next
  case False
  then show ?thesis using assms by (simp add: scan_frame_eq recorded_def)
qed

lemma scan_samples_ok:
  assumes "\<forall>fr \<in> set samples. 6 \<le> length fr" "hist_ok ph"
  shows "\<exists>ph'. scan_samples extra_bits samples ph = Inr ph' \<and> hist_ok ph' \<and>
           map fst ph' = fold add_key (concat (map (recorded extra_bits) samples)) (map fst ph)"
  using assms
proof (induction samples arbitrary: ph)
  case Nil
  then show ?case by simp
next
  case (Cons fr samples)
  then obtain ph1 where 1: "scan_frame extra_bits ph fr = Inr ph1" "hist_ok ph1"
      "map fst ph1 = fold add_key (recorded extra_bits fr) (map fst ph)"
    using scan_frame_ok [of fr ph extra_bits] by auto
  from Cons.IH [of ph1] Cons.prems 1(2)
  obtain ph' where 2: "scan_samples extra_bits samples ph1 = Inr ph'" "hist_ok ph'"
      "map fst ph' = fold add_key (concat (map (recorded extra_bits) samples)) (map fst ph1)"
    by auto
  show ?case using 1 2 by simp
qed

lemma scan_samples_short:
  assumes "\<exists>fr \<in> set samples. length fr < 6"
  shows "\<exists>e. scan_samples extra_bits samples ph = Inl e"
  using assms
proof (induction samples arbitrary: ph)
  case Nil
  then show ?case by simp
next
  case (Cons fr samples)
  show ?case
  proof (cases "scan_frame extra_bits ph fr")
    case (Inl e)
    then show ?thesis by simp
  next
    case (Inr ph1)
    then have "\<not> length fr < 6" by (auto simp: scan_frame_eq split: if_splits)
    then have "\<exists>fr \<in> set samples. length fr < 6" using Cons.prems by auto
    from Cons.IH [OF this, of ph1] show ?thesis using Inr by simp
  qed
qed

lemma hist_ok_empty: "hist_ok []"
  by (simp add: hist_ok_def)

section \<open>Chanmap position detector: the selection\<close>

lemma fold_max_ge: "(x::int) \<le> fold max ys x"
proof (induction ys arbitrary: x)
  case Nil
  then show ?case by simp
next
  case (Cons y ys)
  have "x \<le> max y x" by simp
  also have "\<dots> \<le> fold max ys (max y x)" by (rule Cons.IH)
  finally show ?case by simp
qed

lemma hist_score_ok:
  assumes "h \<noteq> []" "\<forall>(v, c) \<in> set h. 1 \<le> c"
  shows "\<exists>s. hist_score h = Inr s \<and> 0 \<le> s"
proof -
  obtain x ys where h: "map snd h = x # ys" using assms(1) by (cases h) auto
  have "\<forall>c \<in> set (map snd h). 0 \<le> c" using assms(2) by fastforce
  then have "0 \<le> sum_list (map snd h)" by (intro sum_list_nonneg) blast
  then have "(0::rat) \<le> of_int (sum_list (map snd h))" by simp
  then show ?thesis
    by (simp add: hist_score_def py_max_def h Let_def del: sum_list.Cons)
qed

lemma hist_ok_score:
  assumes "hist_ok ph" "x \<in> set ph"
  shows "hist_score (snd x) = Inr (score_of (snd x)) \<and> 0 \<le> score_of (snd x)"
proof -
  obtain k h where x: "x = (k, h)" by (cases x)
  then have "h \<noteq> []" "\<forall>(v, c) \<in> set h. 1 \<le> c"
    using assms unfolding hist_ok_def by auto
  from hist_score_ok [OF this] show ?thesis
    by (auto simp: score_of_def x)
qed

lemma best_loop_ok:
  assumes "\<forall>x \<in> set items. hist_score (snd x) = Inr (score_of (snd x))"
  shows "\<exists>r. best_loop items bp bs = Inr r \<and>
     ((r = bp \<and> (\<forall>x \<in> set items. score_of (snd x) \<le> bs)) \<or>
      (\<exists>pre k h post. items = pre @ (k, h) # post \<and> r = Some k \<and> bs < score_of h \<and>
         (\<forall>x \<in> set pre. score_of (snd x) < score_of h) \<and>
         (\<forall>x \<in> set post. score_of (snd x) \<le> score_of h)))"
  using assms
proof (induction items arbitrary: bp bs)
  case Nil
  then show ?case by simp
next
  case (Cons x items)
  obtain k0 h0 where x: "x = (k0, h0)" by (cases x)
  have s0: "hist_score h0 = Inr (score_of h0)" using Cons.prems x by simp
  have rest: "\<forall>x \<in> set items. hist_score (snd x) = Inr (score_of (snd x))"
    using Cons.prems by simp
  show ?case
  proof (cases "bs < score_of h0")
    case True
    from Cons.IH [OF rest, of "Some k0" "score_of h0"]
    obtain r where r: "best_loop items (Some k0) (score_of h0) = Inr r"
      and d: "(r = Some k0 \<and> (\<forall>x \<in> set items. score_of (snd x) \<le> score_of h0)) \<or>
        (\<exists>pre k h post. items = pre @ (k, h) # post \<and> r = Some k \<and> score_of h0 < score_of h \<and>
         (\<forall>x \<in> set pre. score_of (snd x) < score_of h) \<and>
         (\<forall>x \<in> set post. score_of (snd x) \<le> score_of h))"
      by blast
    have run: "best_loop (x # items) bp bs = Inr r"
      using True r by (simp add: x s0)
    from d show ?thesis
    proof
      assume a: "r = Some k0 \<and> (\<forall>x \<in> set items. score_of (snd x) \<le> score_of h0)"
      have "x # items = [] @ (k0, h0) # items" by (simp add: x)
      with a True run show ?thesis by fastforce
    next
      assume "\<exists>pre k h post. items = pre @ (k, h) # post \<and> r = Some k \<and> score_of h0 < score_of h \<and>
         (\<forall>x \<in> set pre. score_of (snd x) < score_of h) \<and>
         (\<forall>x \<in> set post. score_of (snd x) \<le> score_of h)"
      then obtain pre k h post where p: "items = pre @ (k, h) # post" "r = Some k"
          "score_of h0 < score_of h" "\<forall>x \<in> set pre. score_of (snd x) < score_of h"
          "\<forall>x \<in> set post. score_of (snd x) \<le> score_of h"
        by blast
      have 1: "x # items = (x # pre) @ (k, h) # post" using p(1) by simp
      have 2: "\<forall>y \<in> set (x # pre). score_of (snd y) < score_of h" using p(3,4) x by simp
      have 3: "bs < score_of h" using True p(3) by simp
      show ?thesis using run 1 2 3 p(2,5) by blast
    qed
  next
    case False
    from Cons.IH [OF rest, of bp bs]
    obtain r where r: "best_loop items bp bs = Inr r"
      and d: "(r = bp \<and> (\<forall>x \<in> set items. score_of (snd x) \<le> bs)) \<or>
        (\<exists>pre k h post. items = pre @ (k, h) # post \<and> r = Some k \<and> bs < score_of h \<and>
         (\<forall>x \<in> set pre. score_of (snd x) < score_of h) \<and>
         (\<forall>x \<in> set post. score_of (snd x) \<le> score_of h))"
      by blast
    have run: "best_loop (x # items) bp bs = Inr r"
      using False r by (simp add: x s0)
    from d show ?thesis
    proof
      assume a: "r = bp \<and> (\<forall>x \<in> set items. score_of (snd x) \<le> bs)"
      then have "\<forall>y \<in> set (x # items). score_of (snd y) \<le> bs" using False x by simp
      with a run show ?thesis by blast
    next
      assume "\<exists>pre k h post. items = pre @ (k, h) # post \<and> r = Some k \<and> bs < score_of h \<and>
         (\<forall>x \<in> set pre. score_of (snd x) < score_of h) \<and>
         (\<forall>x \<in> set post. score_of (snd x) \<le> score_of h)"
      then obtain pre k h post where p: "items = pre @ (k, h) # post" "r = Some k"
          "bs < score_of h" "\<forall>x \<in> set pre. score_of (snd x) < score_of h"
          "\<forall>x \<in> set post. score_of (snd x) \<le> score_of h"
        by blast
      have 1: "x # items = (x # pre) @ (k, h) # post" using p(1) by simp
      have 2: "\<forall>y \<in> set (x # pre). score_of (snd y) < score_of h" using p(3,4) x False by simp
      show ?thesis using run 1 2 p(2,3,5) by blast
    qed
  qed
qed



lemma recorded_iff:
  "k \<in> set (recorded extra_bits fr) \<longleftrightarrow>
     is_dependent fr \<and> k - 1 \<in> set (candidates extra_bits fr) \<and> qualifies fr (k - 1)"
proof -
  have "k \<in> (\<lambda>p. p + 1) ` S \<longleftrightarrow> k - 1 \<in> S" for S :: "int set"
    by force
  then show ?thesis by (simp add: recorded_def)
qed

lemma find_chanmap_bitpos_ok:
  assumes "\<forall>fr \<in> set samples. 6 \<le> length fr"
  shows "\<exists>ph. scan_samples extra_bits samples [] = Inr ph \<and> hist_ok ph \<and>
           map fst ph = fold add_key (concat (map (recorded extra_bits) samples)) [] \<and>
           ((ph = [] \<and> find_chanmap_bitpos samples extra_bits = Inr None) \<or>
            (\<exists>pre k h post. ph = pre @ (k, h) # post \<and>
               find_chanmap_bitpos samples extra_bits = Inr (Some k) \<and>
               (\<forall>x \<in> set pre. score_of (snd x) < score_of h) \<and>
               (\<forall>x \<in> set post. score_of (snd x) \<le> score_of h)))"
proof -
  from scan_samples_ok [OF assms hist_ok_empty, of extra_bits]
  obtain ph where ph: "scan_samples extra_bits samples [] = Inr ph" "hist_ok ph"
      "map fst ph = fold add_key (concat (map (recorded extra_bits) samples)) []"
    by auto
  have sc: "\<forall>x \<in> set ph. hist_score (snd x) = Inr (score_of (snd x))"
    using hist_ok_score [OF ph(2)] by blast
  have nonneg: "\<forall>x \<in> set ph. 0 \<le> score_of (snd x)"
    using hist_ok_score [OF ph(2)] by blast
  show ?thesis
  proof (cases "ph = []")
    case True
    then show ?thesis using ph by (simp add: find_chanmap_bitpos_def)
  next
    case False
    from best_loop_ok [OF sc, of None "- 1"]
    obtain r where r: "best_loop ph None (- 1) = Inr r"
      and d: "(r = None \<and> (\<forall>x \<in> set ph. score_of (snd x) \<le> - 1)) \<or>
        (\<exists>pre k h post. ph = pre @ (k, h) # post \<and> r = Some k \<and> - 1 < score_of h \<and>
         (\<forall>x \<in> set pre. score_of (snd x) < score_of h) \<and>
         (\<forall>x \<in> set post. score_of (snd x) \<le> score_of h))"
      by blast
    have f: "find_chanmap_bitpos samples extra_bits = Inr r"
      using ph(1) False r by (simp add: find_chanmap_bitpos_def)
    obtain x where "x \<in> set ph" using False by (cases ph) auto
    then have "\<not> (\<forall>x \<in> set ph. score_of (snd x) \<le> - 1)"
      using nonneg by fastforce
    with d obtain pre k h post where "ph = pre @ (k, h) # post" "r = Some k"
        "\<forall>x \<in> set pre. score_of (snd x) < score_of h"
        "\<forall>x \<in> set post. score_of (snd x) \<le> score_of h"
      by blast
    then show ?thesis using ph f by blast
  qed
qed

lemma find_chanmap_bitpos_short:
  assumes "\<exists>fr \<in> set samples. length fr < 6"
  shows "\<exists>e. find_chanmap_bitpos samples extra_bits = Inl e \<and>
             scan_samples extra_bits samples [] = Inl e"
  using scan_samples_short [OF assms, of extra_bits "[]"]
  by (auto simp: find_chanmap_bitpos_def)

lemma fold_add_key_Nil_empty: "fold add_key xs [] = [] \<longleftrightarrow> xs = []"
  using set_fold_add_key [of xs "[]"] by (metis set_empty sup_bot.left_neutral)

section \<open>Chanmap position detector: the claims\<close>

lemma concat_recorded_empty:
  "concat (map (recorded extra_bits) samples) = [] \<longleftrightarrow>
     (\<forall>fr \<in> set samples. is_dependent fr \<longrightarrow>
        (\<forall>p \<in> set (candidates extra_bits fr). \<not> qualifies fr p))"
proof -
  have "recorded extra_bits fr = [] \<longleftrightarrow>
      (is_dependent fr \<longrightarrow> (\<forall>p \<in> set (candidates extra_bits fr). \<not> qualifies fr p))" for fr
    by (simp add: recorded_def filter_empty_conv)
  then show ?thesis by simp
qed

text \<open>
  C8. The detector returns \<open>None\<close> exactly when the histogram it has built is empty. On
  samples of at least 6 bytes each (shorter ones raise \<open>IndexError\<close>) that is the case exactly
  when no dependent sample has a candidate offset with a set presence bit followed by a 16-bit
  value other than \<open>0x0000\<close> and \<open>0xFFFF\<close>. When the detector returns \<open>None\<close> on the
  samples of the discovery pass, \<open>patch_file\<close> raises its detection error and the output file
  has not been opened.
\<close>

theorem detection_failure:
  "(find_chanmap_bitpos samples extra_bits = Inr None \<longleftrightarrow>
      scan_samples extra_bits samples [] = Inr [])
   \<and> ((\<forall>fr \<in> set samples. 6 \<le> length fr) \<longrightarrow>
        (find_chanmap_bitpos samples extra_bits = Inr None \<longleftrightarrow>
           (\<forall>fr \<in> set samples. is_dependent fr \<longrightarrow>
              (\<forall>p \<in> set (candidates extra_bits fr). \<not> qualifies fr p))))
   \<and> (collect_samples input [] = Inr samples \<and> find_chanmap_bitpos samples 2048 = Inr None \<longrightarrow>
        patch_file input =
          (None, Inl (PatchError
             ''Could not detect the chanmap location in dependent E-AC-3 frames.'')))"
proof (intro conjI impI)
  show "find_chanmap_bitpos samples extra_bits = Inr None \<longleftrightarrow>
      scan_samples extra_bits samples [] = Inr []"
  proof (cases "\<forall>fr \<in> set samples. 6 \<le> length fr")
    case True
    from find_chanmap_bitpos_ok [OF True, of extra_bits] show ?thesis by auto
  next
    case False
    then have "\<exists>fr \<in> set samples. length fr < 6" by (simp add: not_le)
    from find_chanmap_bitpos_short [OF this, of extra_bits] show ?thesis by auto
  qed
next
  assume a: "\<forall>fr \<in> set samples. 6 \<le> length fr"
  from find_chanmap_bitpos_ok [OF a, of extra_bits]
  obtain ph where ph: "scan_samples extra_bits samples [] = Inr ph"
      "map fst ph = fold add_key (concat (map (recorded extra_bits) samples)) []"
      "(ph = [] \<and> find_chanmap_bitpos samples extra_bits = Inr None) \<or>
       (\<exists>k. find_chanmap_bitpos samples extra_bits = Inr (Some k) \<and> ph \<noteq> [])"
    by fastforce
  have "find_chanmap_bitpos samples extra_bits = Inr None \<longleftrightarrow> ph = []"
    using ph(3) by auto
  also have "\<dots> \<longleftrightarrow> map fst ph = []" by simp
  also have "\<dots> \<longleftrightarrow> concat (map (recorded extra_bits) samples) = []"
    unfolding ph(2) by (rule fold_add_key_Nil_empty)
  finally show "find_chanmap_bitpos samples extra_bits = Inr None \<longleftrightarrow>
           (\<forall>fr \<in> set samples. is_dependent fr \<longrightarrow>
              (\<forall>p \<in> set (candidates extra_bits fr). \<not> qualifies fr p))"
    by (simp only: concat_recorded_empty)
next
  assume "collect_samples input [] = Inr samples \<and> find_chanmap_bitpos samples 2048 = Inr None"
  then show "patch_file input =
          (None, Inl (PatchError
             ''Could not detect the chanmap location in dependent E-AC-3 frames.''))"
    by (simp add: patch_file_def)
qed

text \<open>C8 at an input of one dependent 10-byte frame with no set bit after its header.\<close>

theorem detection_failure_witness:
  "find_chanmap_bitpos [[0x0B, 0x77, 0x40, 0x04, 0x00, 0x80, 0x00, 0x00, 0x00, 0x00]] 2048 = Inr None
   \<and> patch_file [0x0B, 0x77, 0x40, 0x04, 0x00, 0x80, 0x00, 0x00, 0x00, 0x00] =
       (None, Inl (PatchError
          ''Could not detect the chanmap location in dependent E-AC-3 frames.''))"
proof -
  let ?Z = "[0x0B, 0x77, 0x40, 0x04, 0x00, 0x80, 0x00, 0x00, 0x00, 0x00] :: byte list"
  have 1: "scan_samples 2048 [?Z] [] = Inr []" by code_simp
  have 2: "collect_samples ?Z [] = Inr [?Z]" by code_simp
  have 3: "\<forall>fr \<in> set [?Z]. 6 \<le> length fr" by simp
  note t = detection_failure [where samples = "[?Z]" and extra_bits = 2048 and input = ?Z]
  from t 1 have 4: "find_chanmap_bitpos [?Z] 2048 = Inr None" by blast
  from t 2 4 show ?thesis by blast
qed









text \<open>
  C3, as amended. For a dependent frame the candidate offsets are the \<open>p\<close> with
  \<open>scan_start \<le> p < min (8 * len - 17) (scan_start + extra_bits)\<close>, where \<open>extra_bits\<close> is
  2048 in \<open>patch_file\<close>: scanned from an empty histogram, the keys recorded are exactly the
  \<open>p + 1\<close> for the \<open>p\<close> of that interval with a set presence bit and a non-sentinel value.
\<close>

theorem scan_window_capped:
  assumes "is_dependent fr"
  shows "\<exists>info ph. eac3_parse_positions fr = Inr info \<and>
           scan_frame extra_bits [] fr = Inr ph \<and>
           set (scan_window fr (scan_start info) extra_bits) =
             {p. scan_start info \<le> p \<and> p < int (length fr) * 8 - 17 \<and>
                 p < scan_start info + extra_bits} \<and>
           (\<forall>k. k \<in> fst ` set ph \<longleftrightarrow>
              (\<exists>p. k = p + 1 \<and> scan_start info \<le> p \<and> p < int (length fr) * 8 - 17 \<and>
                   p < scan_start info + extra_bits \<and> qualifies fr p))"
proof -
  obtain info where info: "eac3_parse_positions fr = Inr info"
    by (simp add: eac3_parse_positions_eq)
  have len: "6 \<le> length fr"
    using assms by (auto simp: is_dependent_def py_get_def py_index_def split: if_splits)
  from scan_frame_ok [OF len hist_ok_empty, of extra_bits]
  obtain ph where ph: "scan_frame extra_bits [] fr = Inr ph"
      "map fst ph = fold add_key (recorded extra_bits fr) []"
    by auto
  have c: "candidates extra_bits fr = scan_window fr (scan_start info) extra_bits"
    by (simp add: candidates_def info)
  have "k \<in> fst ` set ph \<longleftrightarrow>
      (\<exists>p. k = p + 1 \<and> scan_start info \<le> p \<and> p < int (length fr) * 8 - 17 \<and>
           p < scan_start info + extra_bits \<and> qualifies fr p)" for k
  proof -
    have "k \<in> fst ` set ph \<longleftrightarrow> k \<in> set (map fst ph)" by simp
    also have "\<dots> \<longleftrightarrow> k \<in> set (recorded extra_bits fr)"
      unfolding ph(2) by (simp add: set_fold_add_key)
    also have "\<dots> \<longleftrightarrow> k - 1 \<in> set (scan_window fr (scan_start info) extra_bits) \<and> qualifies fr (k - 1)"
      using assms by (simp add: recorded_iff c)
    also have "\<dots> \<longleftrightarrow> (\<exists>p. k = p + 1 \<and> scan_start info \<le> p \<and> p < int (length fr) * 8 - 17 \<and>
           p < scan_start info + extra_bits \<and> qualifies fr p)"
      unfolding scan_window_set by (auto intro: exI [of _ "k - 1"])
    finally show ?thesis .
  qed
  then show ?thesis using info ph(1) scan_window_set by blast
qed

text \<open>C3 as amended, at a dependent 10-byte frame.\<close>

theorem scan_window_capped_witness:
  "\<exists>info ph. eac3_parse_positions [0x0B, 0x77, 0x40, 0x04, 0x00, 0x80, 0x20, 0x04, 0x00, 0x04] = Inr info \<and>
     scan_frame 2048 [] [0x0B, 0x77, 0x40, 0x04, 0x00, 0x80, 0x20, 0x04, 0x00, 0x04] = Inr ph \<and>
     (\<forall>k. k \<in> fst ` set ph \<longleftrightarrow>
        (\<exists>p. k = p + 1 \<and> scan_start info \<le> p \<and> p < 63 \<and> p < scan_start info + 2048 \<and>
             qualifies [0x0B, 0x77, 0x40, 0x04, 0x00, 0x80, 0x20, 0x04, 0x00, 0x04] p))"
proof -
  let ?A = "[0x0B, 0x77, 0x40, 0x04, 0x00, 0x80, 0x20, 0x04, 0x00, 0x04] :: byte list"
  have "is_dependent ?A" by code_simp
  from scan_window_capped [OF this, of 2048] show ?thesis by simp blast
qed

text \<open>
  C3 as stated fails: in this dependent frame of 266 bytes, offset 2099 lies in
  \<open>[scan_start, 8 * 266 - 17) = [51, 2111)\<close>, its presence bit is set and the value after it
  is \<open>0x8000\<close>, yet nothing is recorded: the scan stops at \<open>51 + 2048\<close>.
\<close>

theorem scan_window_full_counterexample:
  "is_dependent ([0x0B, 0x77, 0x40, 0x84, 0x00, 0x80] @ replicate 256 0 @ [0x18, 0, 0, 0])
   \<and> eac3_parse_positions ([0x0B, 0x77, 0x40, 0x84, 0x00, 0x80] @ replicate 256 0 @ [0x18, 0, 0, 0]) =
       Inr \<lparr>strmtype = 1, dialnorm_pos = 45, compre_pos = 50, compr_pos = 51, scan_start = 51\<rparr>
   \<and> int (length ([0x0B, 0x77, 0x40, 0x84, 0x00, 0x80] @ replicate 256 0 @ [0x18, 0, 0, 0 :: byte])) * 8 - 17 = 2111
   \<and> qualifies ([0x0B, 0x77, 0x40, 0x84, 0x00, 0x80] @ replicate 256 0 @ [0x18, 0, 0, 0]) 2099
   \<and> scan_frame 2048 [] ([0x0B, 0x77, 0x40, 0x84, 0x00, 0x80] @ replicate 256 0 @ [0x18, 0, 0, 0]) = Inr []"
proof -
  let ?F = "[0x0B, 0x77, 0x40, 0x84, 0x00, 0x80] @ replicate 256 0 @ [0x18, 0, 0, 0] :: byte list"
  have len: "length ?F = 266" by simp
  have dep: "is_dependent ?F" by code_simp
  have pos: "eac3_parse_positions ?F =
       Inr \<lparr>strmtype = 1, dialnorm_pos = 45, compre_pos = 50, compr_pos = 51, scan_start = 51\<rparr>"
    by code_simp
  have q: "qualifies ?F 2099" by code_simp
  have zero: "?F ! i = 0" if "6 \<le> i" "i < 262" for i
    using that by (simp add: nth_append)
  have b262: "?F ! 262 = 0x18" by (simp add: nth_append)
  have nb: "\<not> bit_at ?F k" if k: "51 \<le> k" "k \<le> 2098" for k
  proof (cases "k div 8 < 262")
    case True
    have "6 \<le> k div 8" using k by simp
    from zero [OF this True] show ?thesis by (simp add: bit_at_def)
  next
    case False
    then have d: "k div 8 = 262" using k by simp
    then have "k mod 8 = k - 2096" using k by presburger
    then have "k mod 8 = 0 \<or> k mod 8 = 1 \<or> k mod 8 = 2" using k by linarith
    moreover have "\<not> bit (0x18 :: byte) 7" "\<not> bit (0x18 :: byte) 6" "\<not> bit (0x18 :: byte) 5"
      by simp_all
    ultimately show ?thesis unfolding bit_at_def d b262 by auto
  qed
  have cand: "candidates 2048 ?F = scan_window ?F 51 2048"
    unfolding candidates_def pos by simp
  have "\<not> qualifies ?F p" if "p \<in> set (candidates 2048 ?F)" for p
  proof -
    from that have p: "51 \<le> p" "p \<le> 2098"
      unfolding cand scan_window_set len by simp_all
    then have "\<not> bit_at ?F (nat p)" by (intro nb) simp_all
    then show ?thesis using p by (simp add: qualifies_nonneg)
  qed
  then have "recorded 2048 ?F = []"
    by (simp add: recorded_def filter_empty_conv)
  moreover from scan_frame_ok [OF _ hist_ok_empty, of ?F 2048]
  obtain ph where "scan_frame 2048 [] ?F = Inr ph" "map fst ph = fold add_key (recorded 2048 ?F) []"
    by auto
  ultimately have "scan_frame 2048 [] ?F = Inr []" by simp
  then show ?thesis using dep pos q len by simp
qed

end
